theory Spec2Isabelle
  imports Main "HOL-Library.Multiset" "HOL-Library.Sublist"
begin

section \<open>Data model\<close>

text \<open>
  The producer script \<^verbatim>\<open>docker/scripts/produce_messages.py\<close> reads a serialized
  \<^verbatim>\<open>FileDescriptorSet\<close>, links its files by dependency, looks up three message
  types, builds eight sample messages and publishes them.

  A \<^verbatim>\<open>FileDescriptorProto\<close> is kept with the four fields the script reads: its
  name, its package, its dependency names and the names of its top-level message
  types.
\<close>

record file_proto =
  name :: string
  package :: string
  dependency :: "string list"
  message_type :: "string list"

text \<open>
  A \<^verbatim>\<open>FileDescriptor\<close> object. Python objects have identity: \<open>oid\<close> is the
  position of the object in the creation order of the run, so two objects are the same
  object exactly when their \<open>oid\<close> agree. \<open>serialized_pb\<close> keeps the proto the object
  was built from, \<open>dependencies\<close> the objects passed as \<^verbatim>\<open>dependencies=\<close>.
\<close>

datatype file_descriptor =
  FileDescriptor (oid: nat) (fd_name: string) (fd_package: string)
    (serialized_pb: file_proto) (dependencies: "file_descriptor list")

text \<open>A message \<^verbatim>\<open>Descriptor\<close>: bare name, package-qualified name, owning file.\<close>

record descriptor =
  desc_name :: string
  full_name :: string
  desc_file :: string

datatype error = ParseError | ValueError string | IndexError | DeliveryError

subsection \<open>Python dictionaries and lists\<close>

text \<open>
  A \<^verbatim>\<open>dict\<close> iterates in insertion order, and assigning to a key that is already
  present keeps the key's position: an association list with distinct keys.
\<close>

fun dict_set :: "('k \<times> 'v) list \<Rightarrow> 'k \<Rightarrow> 'v \<Rightarrow> ('k \<times> 'v) list" where
  "dict_set [] k v = [(k, v)]"
| "dict_set ((k', v') # kvs) k v =
     (if k' = k then (k, v) # kvs else (k', v') # dict_set kvs k v)"

definition dict_get :: "('k \<times> 'v) list \<Rightarrow> 'k \<Rightarrow> 'v option" where
  "dict_get d k = map_of d k"

definition dict_keys :: "('k \<times> 'v) list \<Rightarrow> 'k list" where
  "dict_keys d = map fst d"

definition dict_values :: "('k \<times> 'v) list \<Rightarrow> 'v list" where
  "dict_values d = map snd d"

text \<open>
  \<^verbatim>\<open>list.remove(x)\<close> deletes the first element equal to \<open>x\<close> and raises
  \<^verbatim>\<open>ValueError\<close> (here \<open>None\<close>) when there is none. Protobuf messages compare by
  value, as records do.
\<close>

fun list_remove :: "'a list \<Rightarrow> 'a \<Rightarrow> 'a list option" where
  "list_remove [] x = None"
| "list_remove (y # ys) x =
     (if y = x then Some ys else map_option (Cons y) (list_remove ys x))"

section \<open>Resolving the descriptor set: \<^verbatim>\<open>load_descriptors\<close>\<close>

text \<open>
  The state of the function: every \<^verbatim>\<open>FileDescriptor\<close> constructed so far, in
  creation order, and the dictionary \<^verbatim>\<open>descriptors\<close>.
\<close>

record lstate =
  created :: "file_descriptor list"
  descriptors :: "(string \<times> file_descriptor) list"

text \<open>
  \<^verbatim>\<open>file_desc = FileDescriptor(...); descriptors[file_proto.name] = file_desc\<close>
\<close>

definition store :: "lstate \<Rightarrow> file_proto \<Rightarrow> file_descriptor list \<Rightarrow> lstate" where
  "store st fp deps =
     (let file_desc = FileDescriptor (length (created st)) (name fp) (package fp) fp deps
      in \<lparr>created = created st @ [file_desc],
          descriptors = dict_set (descriptors st) (name fp) file_desc\<rparr>)"

text \<open>First pass (lines 27 to 35): the files without dependencies.\<close>

fun first_pass :: "lstate \<Rightarrow> file_proto list \<Rightarrow> lstate" where
  "first_pass st [] = st"
| "first_pass st (fp # fps) =
     first_pass (if dependency fp = [] then store st fp [] else st) fps"

text \<open>
  One run of the inner \<^verbatim>\<open>for\<close> loop (lines 41 to 52) over \<^verbatim>\<open>remaining\<close>; it
  returns the state and \<^verbatim>\<open>resolved_in_pass\<close>. The comprehension
  \<^verbatim>\<open>[descriptors[dep] for dep in file_proto.dependency if dep in descriptors]\<close> is
  \<open>List.map_filter\<close> of the lookup.
\<close>

fun resolve_pass :: "lstate \<Rightarrow> file_proto list \<Rightarrow> lstate \<times> file_proto list" where
  "resolve_pass st [] = (st, [])"
| "resolve_pass st (fp # fps) =
     (let deps = List.map_filter (dict_get (descriptors st)) (dependency fp)
      in if length deps = length (dependency fp)
         then (case resolve_pass (store st fp deps) fps of
                 (st', resolved_in_pass) \<Rightarrow> (st', fp # resolved_in_pass))
         else resolve_pass st fps)"

text \<open>Lines 54 and 55: \<^verbatim>\<open>for resolved in resolved_in_pass: remaining.remove(resolved)\<close>.\<close>

fun remove_each :: "'a list \<Rightarrow> 'a list \<Rightarrow> 'a list option" where
  "remove_each remaining [] = Some remaining"
| "remove_each remaining (r # rs) =
     (case list_remove remaining r of
        None \<Rightarrow> None
      | Some remaining' \<Rightarrow> remove_each remaining' rs)"

text \<open>
  What the function leaves behind: the dictionary it returns, the objects it built,
  the final value of \<^verbatim>\<open>remaining\<close>, the names printed by the warning of line 58
  (\<open>None\<close> when nothing is printed), and the number of times the body of the
  \<^verbatim>\<open>while\<close> loop ran. The last one is a counter added for the statement about
  passes; nothing reads it.
\<close>

record load_result =
  lr_created :: "file_descriptor list"
  lr_descriptors :: "(string \<times> file_descriptor) list"
  lr_remaining :: "file_proto list"
  lr_warning :: "string list option"
  lr_passes :: nat

lemma list_remove_length:
  "list_remove ys x = Some zs \<Longrightarrow> length ys = Suc (length zs)"
  by (induction ys arbitrary: zs) (auto split: if_splits)

lemma remove_each_length:
  "remove_each ys rs = Some zs \<Longrightarrow> length ys = length zs + length rs"
  by (induction rs arbitrary: ys) (auto split: option.splits dest: list_remove_length)

text \<open>The \<^verbatim>\<open>while remaining:\<close> loop (lines 39 to 59).\<close>

function resolve_loop :: "lstate \<Rightarrow> file_proto list \<Rightarrow> nat \<Rightarrow> error + load_result" where
  "resolve_loop st remaining passes =
     (if remaining = []
      then Inr \<lparr>lr_created = created st, lr_descriptors = descriptors st,
                lr_remaining = remaining, lr_warning = None, lr_passes = passes\<rparr>
      else (case resolve_pass st remaining of
              (st', resolved_in_pass) \<Rightarrow>
                (case remove_each remaining resolved_in_pass of
                   None \<Rightarrow> Inl (ValueError ''list.remove(x): x not in list'')
                 | Some remaining' \<Rightarrow>
                     if resolved_in_pass = [] \<and> remaining' \<noteq> []
                     then Inr \<lparr>lr_created = created st', lr_descriptors = descriptors st',
                               lr_remaining = remaining',
                               lr_warning = Some (map name remaining'),
                               lr_passes = Suc passes\<rparr>
                     else resolve_loop st' remaining' (Suc passes))))"
  by pat_completeness auto
termination
proof (relation "measure (\<lambda>(st, remaining, passes). length remaining)")
  show "wf (measure (\<lambda>(st, remaining, passes). length remaining))" by simp
next
  fix st :: lstate and remaining :: "file_proto list" and passes :: nat
    and x st' resolved_in_pass remaining'
  assume ne: "remaining \<noteq> []"
    and rm: "remove_each remaining resolved_in_pass = Some remaining'"
    and nb: "\<not> (resolved_in_pass = [] \<and> remaining' \<noteq> [])"
  from rm have len: "length remaining = length remaining' + length resolved_in_pass"
    by (rule remove_each_length)
  have "length remaining' < length remaining"
  proof (cases "resolved_in_pass = []")
    case True
    with nb len ne show ?thesis by simp
  next
    case False
    with len show ?thesis by (cases resolved_in_pass) auto
  qed
  then show "((st', remaining', Suc passes), (st, remaining, passes))
        \<in> measure (\<lambda>(st, remaining, passes). length remaining)"
    by simp
qed

declare resolve_loop.simps [simp del]

text \<open>
  The argument is the outcome of lines 19 to 21, opening the file and
  \<^verbatim>\<open>ParseFromString\<close>: an error, or the list \<^verbatim>\<open>descriptor_set.file\<close>.
\<close>

definition load_descriptors :: "error + file_proto list \<Rightarrow> error + load_result" where
  "load_descriptors descriptor_file =
     (case descriptor_file of
        Inl e \<Rightarrow> Inl e
      | Inr files \<Rightarrow>
          resolve_loop (first_pass \<lparr>created = [], descriptors = []\<rparr> files)
            (filter (\<lambda>fp. dependency fp \<noteq> []) files) 0)"

section \<open>Looking up the message types (lines 68 to 82)\<close>

text \<open>
  \<^verbatim>\<open>file_desc.message_types_by_name\<close>: the dictionary of the top-level message types
  of a file, keyed by bare name, in declaration order.
\<close>

definition qualify :: "string \<Rightarrow> string \<Rightarrow> string" where
  "qualify pkg m = (if pkg = [] then m else pkg @ ''.'' @ m)"

definition message_types_by_name :: "file_descriptor \<Rightarrow> (string \<times> descriptor) list" where
  "message_types_by_name file_desc =
     foldl (\<lambda>d m. dict_set d m
              \<lparr>desc_name = m, full_name = qualify (fd_package file_desc) m,
               desc_file = fd_name file_desc\<rparr>)
       [] (message_type (serialized_pb file_desc))"

text \<open>The three variables \<^verbatim>\<open>user_desc\<close>, \<^verbatim>\<open>order_desc\<close>, \<^verbatim>\<open>address_desc\<close>.\<close>

record found =
  user_desc :: "descriptor option"
  order_desc :: "descriptor option"
  address_desc :: "descriptor option"

text \<open>The \<^verbatim>\<open>if\<close>/\<^verbatim>\<open>elif\<close> chain of lines 74 to 79, for one message descriptor.\<close>

definition scan_message :: "found \<Rightarrow> descriptor \<Rightarrow> found" where
  "scan_message f message_desc =
     (if desc_name message_desc = ''User'' then f\<lparr>user_desc := Some message_desc\<rparr>
      else if desc_name message_desc = ''Order'' then f\<lparr>order_desc := Some message_desc\<rparr>
      else if desc_name message_desc = ''Address'' then f\<lparr>address_desc := Some message_desc\<rparr>
      else f)"

text \<open>The two nested \<^verbatim>\<open>for\<close> loops of lines 72 and 73. Neither has a \<^verbatim>\<open>break\<close>.\<close>

definition find_message_types :: "(string \<times> file_descriptor) list \<Rightarrow> found" where
  "find_message_types descs =
     foldl (\<lambda>f file_desc. foldl scan_message f (dict_values (message_types_by_name file_desc)))
       \<lparr>user_desc = None, order_desc = None, address_desc = None\<rparr>
       (dict_values descs)"

section \<open>Sample values: \<^verbatim>\<open>create_sample_messages\<close>\<close>

text \<open>Python's \<^verbatim>\<open>str\<close> of an integer, as the f-strings use it: decimal digits.\<close>

definition digit_char :: "nat \<Rightarrow> char" where
  "digit_char d = ''0123456789'' ! (d mod 10)"

fun str_nat :: "nat \<Rightarrow> string" where
  "str_nat n = (if n < 10 then [digit_char n] else str_nat (n div 10) @ [digit_char (n mod 10)])"

declare str_nat.simps [simp del]

definition str_int :: "int \<Rightarrow> string" where
  "str_int i = (if i < 0 then ''-'' @ str_nat (nat (- i)) else str_nat (nat i))"

text \<open>
  Floating-point fields are kept as the expression the source evaluates, with its
  literals as written: no claim depends on their value.
\<close>

datatype pyfloat =
  FloatLit string
| FloatOfInt int
| FloatAdd pyfloat pyfloat
| FloatMul pyfloat pyfloat

text \<open>The message instances, with the fields the script assigns.\<close>

record address_msg =
  street :: string
  city :: string
  country :: string
  zip_code :: int

record user_msg =
  user_id :: int
  user_name :: string
  email :: string
  tags :: "string list"
  user_type :: int
  user_address :: address_msg

record item_msg =
  product_id :: string
  product_name :: string
  quantity :: int
  unit_price :: pyfloat

record order_msg =
  order_id :: int
  order_user :: user_msg
  total_amount :: pyfloat
  status :: int
  created_timestamp :: int
  items :: "item_msg list"

text \<open>
  \<^verbatim>\<open>SerializeToString()\<close> of an instance of the class that
  \<^verbatim>\<open>GetPrototype\<close> makes from a descriptor: the bytes are determined by the
  descriptor and the field values, and are kept as this pair.
\<close>

datatype wire = UserBytes descriptor user_msg | OrderBytes descriptor order_msg

text \<open>The body of the first loop (lines 92 to 104), for index \<open>i\<close>.\<close>

definition sample_user :: "nat \<Rightarrow> user_msg" where
  "sample_user i =
     (let address = \<lparr>street = str_int (100 + int i * 10) @ '' Main St'',
                     city = (if i mod 2 = 0 then ''Springfield'' else ''Anytown''),
                     country = ''USA'',
                     zip_code = 12345 + int i\<rparr>
      in \<lparr>user_id = 1000 + int i,
          user_name = ''User '' @ str_int (int i),
          email = ''user'' @ str_int (int i) @ ''@example.com'',
          tags = [''tag'' @ str_int (int i), ''test''],
          user_type = (if i mod 2 = 0 then 1 else 2),
          user_address = address\<rparr>)"

text \<open>
  The body of the second loop (lines 111 to 137). \<open>now_ms\<close> is the value of
  \<^verbatim>\<open>int(time.time() * 1000)\<close> read in this iteration.
\<close>

definition sample_order :: "int \<Rightarrow> nat \<Rightarrow> order_msg" where
  "sample_order now_ms i =
     (let address = \<lparr>street = str_int (500 + int i * 20) @ '' Oak Ave'',
                     city = ''Commerce City'',
                     country = ''USA'',
                     zip_code = 54321 + int i\<rparr>;
          user = \<lparr>user_id = 2000 + int i,
                  user_name = ''Customer '' @ str_int (int i),
                  email = ''customer'' @ str_int (int i) @ ''@example.com'',
                  tags = [],
                  user_type = 2,
                  user_address = address\<rparr>;
          item = \<lparr>product_id = ''PROD-'' @ str_int (1000 + int i),
                  product_name = ''Product '' @ str_int (int i),
                  quantity = int i + 1,
                  unit_price = FloatAdd (FloatLit ''19.99'') (FloatOfInt (int i * 5))\<rparr>
      in \<lparr>order_id = 9000 + int i,
          order_user = user,
          total_amount =
            FloatAdd (FloatLit ''99.99'') (FloatMul (FloatOfInt (int i)) (FloatLit ''25.50'')),
          status = 1,
          created_timestamp = now_ms - int i * 3600000,
          items = [item]\<rparr>)"

text \<open>An entry of \<^verbatim>\<open>messages\<close>: topic, serialized bytes, description.\<close>

type_synonym message = "string \<times> wire \<times> string"

text \<open>
  \<^verbatim>\<open>create_sample_messages(descriptors)\<close>. \<open>time_ms i\<close> is the clock reading of the
  \<open>i\<close>-th order. The calls into the protobuf runtime (\<^verbatim>\<open>GetPrototype\<close>, the field
  assignments, \<^verbatim>\<open>CopyFrom\<close>) are taken to succeed; the one error the function raises
  itself is the \<^verbatim>\<open>ValueError\<close> of line 82.
\<close>

definition create_sample_messages ::
  "(nat \<Rightarrow> int) \<Rightarrow> (string \<times> file_descriptor) list \<Rightarrow> error + message list" where
  "create_sample_messages time_ms descs =
     (let f = find_message_types descs in
      if user_desc f = None \<or> order_desc f = None \<or> address_desc f = None
      then Inl (ValueError ''Required message types not found in descriptors'')
      else
        let user_class = the (user_desc f); order_class = the (order_desc f)
        in Inr (map (\<lambda>i. (''user-events'', UserBytes user_class (sample_user i),
                            ''User '' @ str_int (int i))) [0..<5]
              @ map (\<lambda>i. (''order-events'', OrderBytes order_class (sample_order (time_ms i) i),
                            ''Order '' @ str_int (int i))) [0..<3]))"

section \<open>Publishing: \<^verbatim>\<open>main\<close>\<close>

text \<open>
  What \<^verbatim>\<open>main\<close> does to the outside is a trace of events: the calls of
  \<^verbatim>\<open>time.sleep\<close>, the construction of a \<^verbatim>\<open>KafkaProducer\<close>, a
  \<^verbatim>\<open>producer.send\<close> with its topic, key and value followed by \<^verbatim>\<open>future.get\<close>,
  \<^verbatim>\<open>flush\<close> and \<^verbatim>\<open>close\<close>. Console output is left out.
\<close>

datatype event =
  Sleep nat
| Connect
| Send string string wire
| Flush
| Close

text \<open>
  The environment of a run: the outcome of reading and parsing the descriptor file, the
  clock readings (\<open>time_ms i\<close> for the \<open>i\<close>-th order, \<open>time_s n\<close> the value of
  \<^verbatim>\<open>int(time.time())\<close> at the \<open>n\<close>-th send), and the broker: whether the \<open>n\<close>-th
  construction of a producer succeeds and whether the \<open>n\<close>-th send is acknowledged
  within its timeout.
\<close>

record environment =
  descriptor_file :: "error + file_proto list"
  time_ms :: "nat \<Rightarrow> int"
  time_s :: "nat \<Rightarrow> int"
  connect_ok :: "nat \<Rightarrow> bool"
  send_ok :: "nat \<Rightarrow> bool"

record pstate =
  trace :: "event list"
  connects :: nat
  sends :: nat

definition emit :: "event \<Rightarrow> pstate \<Rightarrow> pstate" where
  "emit e ps = ps\<lparr>trace := trace ps @ [e]\<rparr>"

text \<open>A procedure returns the exception it raised, if any, and the state it left.\<close>

definition KafkaProducer :: "environment \<Rightarrow> pstate \<Rightarrow> error option \<times> pstate" where
  "KafkaProducer env ps =
     (if connect_ok env (connects ps) then None else Some DeliveryError,
      (emit Connect ps)\<lparr>connects := Suc (connects ps)\<rparr>)"

text \<open>
  The three statements both sending loops share: the key, \<^verbatim>\<open>producer.send\<close> and
  \<^verbatim>\<open>future.get(timeout=10)\<close>.
\<close>

definition send_message :: "environment \<Rightarrow> pstate \<Rightarrow> message \<Rightarrow> error option \<times> pstate" where
  "send_message env ps m =
     (case m of (topic, message_bytes, description) \<Rightarrow>
        let key = ''key-'' @ str_int (time_s env (sends ps))
        in (if send_ok env (sends ps) then None else Some DeliveryError,
            (emit (Send topic key message_bytes) ps)\<lparr>sends := Suc (sends ps)\<rparr>))"

text \<open>The loop of the initial burst (lines 177 to 182), with its \<^verbatim>\<open>time.sleep(1)\<close>.\<close>

fun send_burst :: "environment \<Rightarrow> pstate \<Rightarrow> message list \<Rightarrow> error option \<times> pstate" where
  "send_burst env ps [] = (None, ps)"
| "send_burst env ps (m # ms) =
     (case send_message env ps m of
        (Some e, ps') \<Rightarrow> (Some e, ps')
      | (None, ps') \<Rightarrow> send_burst env (emit (Sleep 1) ps') ms)"

text \<open>The inner loop of the background loop (lines 203 to 207).\<close>

fun send_each :: "environment \<Rightarrow> pstate \<Rightarrow> message list \<Rightarrow> error option \<times> pstate" where
  "send_each env ps [] = (None, ps)"
| "send_each env ps (m # ms) =
     (case send_message env ps m of
        (Some e, ps') \<Rightarrow> (Some e, ps')
      | (None, ps') \<Rightarrow> send_each env ps' ms)"

text \<open>
  The body of \<^verbatim>\<open>while True\<close> (lines 192 to 210). \<^verbatim>\<open>messages[0]\<close> and
  \<^verbatim>\<open>messages[-1]\<close> raise \<^verbatim>\<open>IndexError\<close> on an empty list.
\<close>

definition background_cycle ::
  "environment \<Rightarrow> message list \<Rightarrow> pstate \<Rightarrow> error option \<times> pstate" where
  "background_cycle env messages ps =
     (case KafkaProducer env (emit (Sleep 30) ps) of
        (Some e, ps1) \<Rightarrow> (Some e, ps1)
      | (None, ps1) \<Rightarrow>
          (case messages of
             [] \<Rightarrow> (Some IndexError, ps1)
           | _ # _ \<Rightarrow>
               (case send_each env ps1 [hd messages, last messages] of
                  (Some e, ps2) \<Rightarrow> (Some e, ps2)
                | (None, ps2) \<Rightarrow> (None, emit Close (emit Flush ps2)))))"

text \<open>
  \<^verbatim>\<open>while True\<close> has no exit of its own, so the loop is run with fuel: the number of
  iterations observed. The result \<open>None\<close> says that the loop is still running after that
  many iterations, \<open>Some e\<close> that an iteration raised \<open>e\<close> and the loop was left.
\<close>

fun background_loop ::
  "environment \<Rightarrow> message list \<Rightarrow> nat \<Rightarrow> pstate \<Rightarrow> error option \<times> pstate" where
  "background_loop env messages 0 ps = (None, ps)"
| "background_loop env messages (Suc fuel) ps =
     (case background_cycle env messages ps of
        (Some e, ps') \<Rightarrow> (Some e, ps')
      | (None, ps') \<Rightarrow> background_loop env messages fuel ps')"

text \<open>
  \<^verbatim>\<open>main\<close>: \<open>Exited 1\<close> is the \<^verbatim>\<open>return 1\<close> of the \<^verbatim>\<open>except\<close> clause,
  \<open>Running\<close> a run that is still in the background loop after \<open>fuel\<close> iterations. The
  \<^verbatim>\<open>return 0\<close> of line 218 is not reachable: the loop before it ends only by an
  exception.
\<close>

datatype run = Running | Exited int

definition main :: "environment \<Rightarrow> nat \<Rightarrow> run \<times> event list" where
  "main env fuel =
     (let ps0 = emit (Sleep 10) \<lparr>trace = [], connects = 0, sends = 0\<rparr> in
      case load_descriptors (descriptor_file env) of
        Inl e \<Rightarrow> (Exited 1, trace ps0)
      | Inr loaded \<Rightarrow>
          (case create_sample_messages (time_ms env) (lr_descriptors loaded) of
             Inl e \<Rightarrow> (Exited 1, trace ps0)
           | Inr messages \<Rightarrow>
               (case KafkaProducer env ps0 of
                  (Some e, ps1) \<Rightarrow> (Exited 1, trace ps1)
                | (None, ps1) \<Rightarrow>
                    (case send_burst env ps1 messages of
                       (Some e, ps2) \<Rightarrow> (Exited 1, trace ps2)
                     | (None, ps2) \<Rightarrow>
                         (case background_loop env messages fuel (emit Close (emit Flush ps2)) of
                            (Some e, ps3) \<Rightarrow> (Exited 1, trace ps3)
                          | (None, ps3) \<Rightarrow> (Running, trace ps3))))))"

section \<open>Notions used in the statements\<close>


text \<open>
  Auxiliary notions of the proofs: a record is ready when all its dependency names are
  keys of the dictionary; \<open>built\<close> is the set of records a descriptor was constructed
  for; the two invariants of the loop.
\<close>

definition ready :: "lstate \<Rightarrow> file_proto \<Rightarrow> bool" where
  "ready st fp = (set (dependency fp) \<subseteq> set (dict_keys (descriptors st)))"

definition built :: "lstate \<Rightarrow> file_proto set" where
  "built st = serialized_pb ` set (created st)"

definition deps_present :: "lstate \<Rightarrow> bool" where
  "deps_present st =
     (\<forall>(k, fd)\<in>set (descriptors st).
        set (dependency (serialized_pb fd)) \<subseteq> set (dict_keys (descriptors st)))"


text \<open>
  The identity of an object is its position in the creation order, so no two objects of
  a run share an \<open>oid\<close>.
\<close>

definition oids_in_order :: "lstate \<Rightarrow> bool" where
  "oids_in_order st = (map oid (created st) = [0..<length (created st)])"

text \<open>
  The message descriptors of all files of the dictionary, in the order the two loops of
  \<^verbatim>\<open>create_sample_messages\<close> visit them, and the names of the message types the
  files of the dictionary declare.
\<close>

definition all_message_types :: "(string \<times> file_descriptor) list \<Rightarrow> descriptor list" where
  "all_message_types descs =
     concat (map (\<lambda>file_desc. dict_values (message_types_by_name file_desc)) (dict_values descs))"


text \<open>
  The lookup rule the specification states (the first descriptor with the bare name, in
  iteration order) and the rule with the last one.
\<close>

definition first_match :: "string \<Rightarrow> descriptor list \<Rightarrow> descriptor option" where
  "first_match n ds = List.find (\<lambda>d. desc_name d = n) ds"

definition last_match :: "string \<Rightarrow> descriptor list \<Rightarrow> descriptor option" where
  "last_match n ds = List.find (\<lambda>d. desc_name d = n) (rev ds)"

text \<open>
  A field cycles through two values keyed by the parity of the index: one value at the
  even indices, another at the odd ones.
\<close>

definition keyed_by_parity :: "(nat \<Rightarrow> 'a) \<Rightarrow> bool" where
  "keyed_by_parity f = (\<exists>a b. a \<noteq> b \<and> (\<forall>i. f i = (if i mod 2 = 0 then a else b)))"

text \<open>Reading a decimal string back, for the injectivity of \<open>str_nat\<close>.\<close>

definition digit_val :: "char \<Rightarrow> nat" where
  "digit_val c = of_char c - 48"

definition nat_of_str :: "string \<Rightarrow> nat" where
  "nat_of_str s = foldl (\<lambda>a c. 10 * a + digit_val c) 0 s"

text \<open>
  The key of the \<open>n\<close>-th send; the events of a burst that starts at send number \<open>n\<close>;
  the events of one iteration of the background loop; the topic and value of every send
  of a trace.
\<close>

definition key_at :: "environment \<Rightarrow> nat \<Rightarrow> string" where
  "key_at env n = ''key-'' @ str_int (time_s env n)"

fun burst_events :: "environment \<Rightarrow> nat \<Rightarrow> message list \<Rightarrow> event list" where
  "burst_events env n [] = []"
| "burst_events env n ((topic, message_bytes, description) # ms) =
     Send topic (key_at env n) message_bytes # Sleep 1 # burst_events env (Suc n) ms"


fun sent :: "event list \<Rightarrow> (string \<times> wire) list" where
  "sent [] = []"
| "sent (Send topic key message_bytes # es) = (topic, message_bytes) # sent es"
| "sent (e # es) = sent es"

section \<open>Example inputs\<close>

text \<open>
  A snapshot in the shape of the repository's test schema: \<^verbatim>\<open>user.proto\<close> declares
  \<^verbatim>\<open>User\<close> and \<^verbatim>\<open>Address\<close>, \<^verbatim>\<open>order.proto\<close> imports it and declares
  \<^verbatim>\<open>Order\<close>.
\<close>

definition user_proto :: file_proto where
  "user_proto = \<lparr>name = ''user.proto'', package = ''test'', dependency = [],
     message_type = [''User'', ''Address'']\<rparr>"

definition order_proto :: file_proto where
  "order_proto = \<lparr>name = ''order.proto'', package = ''test'',
     dependency = [''user.proto''], message_type = [''Order'']\<rparr>"

definition user_file :: file_descriptor where
  "user_file = FileDescriptor 0 ''user.proto'' ''test'' user_proto []"

definition order_file :: file_descriptor where
  "order_file = FileDescriptor 1 ''order.proto'' ''test'' order_proto [user_file]"

definition test_descriptors :: "(string \<times> file_descriptor) list" where
  "test_descriptors = [(''user.proto'', user_file), (''order.proto'', order_file)]"

text \<open>
  A snapshot with a file whose import is missing (\<^verbatim>\<open>c.proto\<close>) and two files that
  import each other (\<^verbatim>\<open>d.proto\<close>, \<^verbatim>\<open>e.proto\<close>).
\<close>

definition proto_of :: "string \<Rightarrow> string list \<Rightarrow> file_proto" where
  "proto_of n deps = \<lparr>name = n, package = ''p'', dependency = deps, message_type = []\<rparr>"


text \<open>A chain listed against the direction of its imports: it needs two passes.\<close>

definition chain_snapshot :: "file_proto list" where
  "chain_snapshot =
     [proto_of ''c.proto'' [''b.proto''], proto_of ''b.proto'' [''a.proto''],
      proto_of ''a.proto'' []]"

text \<open>Two packages that both declare a message type \<^verbatim>\<open>User\<close>.\<close>

definition colliding_snapshot :: "file_proto list" where
  "colliding_snapshot =
     [\<lparr>name = ''alpha.proto'', package = ''alpha'', dependency = [],
        message_type = [''User'', ''Address'', ''Order'']\<rparr>,
      \<lparr>name = ''beta.proto'', package = ''beta'', dependency = [],
        message_type = [''User'']\<rparr>]"

text \<open>The descriptors of \<^verbatim>\<open>User\<close> and \<^verbatim>\<open>Order\<close> in the test snapshot.\<close>

definition test_user_desc :: descriptor where
  "test_user_desc = \<lparr>desc_name = ''User'', full_name = ''test.User'', desc_file = ''user.proto''\<rparr>"

definition test_order_desc :: descriptor where
  "test_order_desc =
     \<lparr>desc_name = ''Order'', full_name = ''test.Order'', desc_file = ''order.proto''\<rparr>"

text \<open>
  Three runs on the test snapshot: a broker that acknowledges everything, a broker that
  acknowledges the eight sends of the burst and then stops, and a snapshot without
  \<^verbatim>\<open>order.proto\<close>.
\<close>

definition healthy_env :: environment where
  "healthy_env = \<lparr>descriptor_file = Inr [order_proto, user_proto], time_ms = (\<lambda>i. 0),
     time_s = (\<lambda>n. int n), connect_ok = (\<lambda>n. True), send_ok = (\<lambda>n. True)\<rparr>"



section \<open>Facts about the resolver\<close>

text \<open>
  \<^verbatim>\<open>remaining.remove\<close> never raises in the loop: \<^verbatim>\<open>resolved_in_pass\<close> is a
  sub-multiset of \<^verbatim>\<open>remaining\<close>. So the loop always returns a result, and its pass
  counter is bounded by the length of \<^verbatim>\<open>remaining\<close>.
\<close>

lemma list_remove_mset:
  "list_remove ys x = Some zs \<Longrightarrow> mset ys = add_mset x (mset zs)"
  by (induction ys arbitrary: zs) (auto split: if_splits)

lemma list_remove_mem:
  "x \<in> set ys \<Longrightarrow> \<exists>zs. list_remove ys x = Some zs"
  by (induction ys) auto

lemma list_remove_set:
  "list_remove ys x = Some zs \<Longrightarrow> set ys = insert x (set zs)"
  by (induction ys arbitrary: zs) (auto split: if_splits)

lemma remove_each_succeeds:
  "mset rs \<subseteq># mset ys \<Longrightarrow> \<exists>zs. remove_each ys rs = Some zs"
proof (induction rs arbitrary: ys)
  case Nil
  show ?case by simp
next
  case (Cons r rs)
  from Cons.prems have "r \<in># mset ys"
    by (simp add: insert_subset_eq_iff)
  then obtain zs where zs: "list_remove ys r = Some zs"
    using list_remove_mem [of r ys] by auto
  then have "mset ys = add_mset r (mset zs)"
    by (rule list_remove_mset)
  with Cons.prems have "mset rs \<subseteq># mset zs" by simp
  from Cons.IH [OF this] zs show ?case by simp
qed

lemma remove_each_set:
  "remove_each ys rs = Some zs \<Longrightarrow> set ys = set rs \<union> set zs"
  by (induction rs arbitrary: ys) (auto split: option.splits dest!: list_remove_set)

lemma resolve_pass_mset:
  "resolve_pass st fps = (st', rs) \<Longrightarrow> mset rs \<subseteq># mset fps"
proof (induction fps arbitrary: st st' rs)
  case Nil
  then show ?case by simp
next
  case (Cons fp fps)
  show ?case
  proof (cases "length (List.map_filter (dict_get (descriptors st)) (dependency fp))
                 = length (dependency fp)")
    case True
    with Cons.prems obtain rs' where
      "resolve_pass (store st fp (List.map_filter (dict_get (descriptors st)) (dependency fp))) fps
         = (st', rs')" and "rs = fp # rs'"
      by (auto simp: Let_def split: prod.splits)
    with Cons.IH show ?thesis by auto
  next
    case False
    with Cons.prems have "resolve_pass st fps = (st', rs)" by (simp add: Let_def)
    from Cons.IH [OF this] have "mset rs \<subseteq># mset fps" .
    also have "mset fps \<subseteq># mset (fp # fps)" by simp
    finally show ?thesis .
  qed
qed

lemma resolve_loop_returns:
  "\<exists>r. resolve_loop st remaining passes = Inr r \<and> lr_passes r \<le> passes + length remaining"
proof (induction st remaining passes rule: resolve_loop.induct)
  case (1 st remaining passes)
  show ?case
  proof (cases "remaining = []")
    case True
    then show ?thesis by (simp add: resolve_loop.simps)
  next
    case ne: False
    obtain st' rs where pass: "resolve_pass st remaining = (st', rs)"
      by (cases "resolve_pass st remaining")
    from resolve_pass_mset [OF pass] obtain remaining'
      where rm: "remove_each remaining rs = Some remaining'"
      using remove_each_succeeds by blast
    from rm have len: "length remaining = length remaining' + length rs"
      by (rule remove_each_length)
    show ?thesis
    proof (cases "rs = [] \<and> remaining' \<noteq> []")
      case True
      with rm have "remaining' = remaining" by simp
      with True ne pass rm have "resolve_loop st remaining passes =
          Inr \<lparr>lr_created = created st', lr_descriptors = descriptors st',
                lr_remaining = remaining', lr_warning = Some (map name remaining'),
                lr_passes = Suc passes\<rparr>"
        by (subst resolve_loop.simps) simp
      moreover from ne have "Suc passes \<le> passes + length remaining"
        by (cases remaining) simp_all
      ultimately show ?thesis by simp
    next
      case False
      from "1.IH" [OF ne pass [symmetric] rm False]
      obtain r where r: "resolve_loop st' remaining' (Suc passes) = Inr r"
        and b: "lr_passes r \<le> Suc passes + length remaining'"
        by blast
      from False len ne have "length remaining' < length remaining"
        by (cases rs) auto
      with b have b': "lr_passes r \<le> passes + length remaining" by simp
      from ne pass rm False
      have "resolve_loop st remaining passes = resolve_loop st' remaining' (Suc passes)"
        by (subst resolve_loop.simps) auto
      with r b' show ?thesis by simp
    qed
  qed
qed

text \<open>
  Dictionary facts, the test of line 43 as the predicate \<open>ready\<close>, and the transfer of
  an invariant of \<open>store\<close> through a pass, the first pass and the loop.
\<close>

lemma dict_keys_dict_set_list:
  "dict_keys (dict_set d k v) =
     (if k \<in> set (dict_keys d) then dict_keys d else dict_keys d @ [k])"
  by (induction d) (force simp: dict_keys_def)+

lemma dict_keys_dict_set:
  "set (dict_keys (dict_set d k v)) = insert k (set (dict_keys d))"
  by (auto simp: dict_keys_dict_set_list)

lemma dict_get_dict_set:
  "dict_get (dict_set d k v) k' = (if k' = k then Some v else dict_get d k')"
  by (induction d) (auto simp: dict_get_def)

lemma dict_set_subset: "set (dict_set d k v) \<subseteq> insert (k, v) (set d)"
  by (induction d) (auto split: if_splits)

lemma dict_get_None_iff: "(dict_get d k = None) = (k \<notin> set (dict_keys d))"
  by (simp add: dict_get_def dict_keys_def map_of_eq_None_iff)

lemma dict_get_in_set: "dict_get d k = Some v \<Longrightarrow> (k, v) \<in> set d"
  by (simp add: dict_get_def map_of_SomeD)

lemma length_filter_eq_iff:
  "(length (filter P xs) = length xs) = (\<forall>x\<in>set xs. P x)"
proof
  assume eq: "length (filter P xs) = length xs"
  show "\<forall>x\<in>set xs. P x"
  proof
    fix x assume "x \<in> set xs"
    show "P x"
    proof (rule ccontr)
      assume "\<not> P x"
      with \<open>x \<in> set xs\<close> have "length (filter P xs) < length xs"
        by (rule length_filter_less)
      with eq show False by simp
    qed
  qed
next
  assume "\<forall>x\<in>set xs. P x"
  then have "filter P xs = xs" by (simp add: filter_id_conv)
  then show "length (filter P xs) = length xs" by simp
qed

lemma all_found_iff_ready:
  "(length (List.map_filter (dict_get (descriptors st)) (dependency fp))
      = length (dependency fp)) = ready st fp"
  by (simp add: List.map_filter_def length_filter_eq_iff ready_def dict_get_None_iff subset_eq
      del: not_None_eq)

lemma resolve_pass_Cons:
  "resolve_pass st (fp # fps) =
     (if ready st fp
      then (case resolve_pass
                  (store st fp (List.map_filter (dict_get (descriptors st)) (dependency fp))) fps of
              (st', rs) \<Rightarrow> (st', fp # rs))
      else resolve_pass st fps)"
  by (simp add: Let_def all_found_iff_ready)

declare resolve_pass.simps(2) [simp del]

lemma resolve_pass_preserves:
  assumes "Q st"
    and "\<And>st fp. Q st \<Longrightarrow> fp \<in> set fps \<Longrightarrow> ready st fp \<Longrightarrow>
           Q (store st fp (List.map_filter (dict_get (descriptors st)) (dependency fp)))"
  shows "Q (fst (resolve_pass st fps))"
  using assms
proof (induction fps arbitrary: st)
  case Nil
  then show ?case by simp
next
  case (Cons fp fps)
  show ?case
  proof (cases "ready st fp")
    case True
    let ?st = "store st fp (List.map_filter (dict_get (descriptors st)) (dependency fp))"
    from Cons.prems True have "Q ?st" by simp
    then have "Q (fst (resolve_pass ?st fps))"
      by (rule Cons.IH) (simp add: Cons.prems(2))
    with True show ?thesis
      by (cases "resolve_pass ?st fps") (simp add: resolve_pass_Cons)
  next
    case False
    from Cons.prems(1) have "Q (fst (resolve_pass st fps))"
      by (rule Cons.IH) (simp add: Cons.prems(2))
    with False show ?thesis by (simp add: resolve_pass_Cons)
  qed
qed

lemma first_pass_preserves:
  assumes "Q st"
    and "\<And>st fp. Q st \<Longrightarrow> fp \<in> set fps \<Longrightarrow> ready st fp \<Longrightarrow>
           Q (store st fp (List.map_filter (dict_get (descriptors st)) (dependency fp)))"
  shows "Q (first_pass st fps)"
  using assms
proof (induction fps arbitrary: st)
  case Nil
  then show ?case by simp
next
  case (Cons fp fps)
  show ?case
  proof (cases "dependency fp = []")
    case True
    then have "ready st fp" by (simp add: ready_def)
    with Cons.prems have "Q (store st fp (List.map_filter (dict_get (descriptors st)) (dependency fp)))"
      by simp
    with True have "Q (store st fp [])" by (simp add: List.map_filter_simps)
    then have "Q (first_pass (store st fp []) fps)"
      by (rule Cons.IH) (simp add: Cons.prems(2))
    with True show ?thesis by simp
  next
    case False
    from Cons.prems(1) have "Q (first_pass st fps)"
      by (rule Cons.IH) (simp add: Cons.prems(2))
    with False show ?thesis by simp
  qed
qed

lemma resolve_pass_nothing:
  "resolve_pass st fps = (st', []) \<Longrightarrow> st' = st \<and> (\<forall>fp\<in>set fps. \<not> ready st fp)"
proof (induction fps)
  case Nil
  then show ?case by simp
next
  case (Cons fp fps)
  then show ?case
    by (cases "ready st fp") (auto simp: resolve_pass_Cons split: prod.splits)
qed

lemma resolve_loop_result:
  assumes "resolve_loop st remaining passes = Inr r"
    and "P st remaining"
    and step: "\<And>st remaining st' rs remaining'.
           P st remaining \<Longrightarrow> remaining \<noteq> [] \<Longrightarrow> resolve_pass st remaining = (st', rs) \<Longrightarrow>
           remove_each remaining rs = Some remaining' \<Longrightarrow> P st' remaining'"
  shows "\<exists>st'. lr_created r = created st' \<and> lr_descriptors r = descriptors st' \<and>
           P st' (lr_remaining r) \<and> (\<forall>fp\<in>set (lr_remaining r). \<not> ready st' fp) \<and>
           lr_warning r = (if lr_remaining r = [] then None
                           else Some (map name (lr_remaining r)))"
  using assms(1,2)
proof (induction st remaining passes rule: resolve_loop.induct)
  case (1 st remaining passes)
  show ?case
  proof (cases "remaining = []")
    case True
    with "1.prems" show ?thesis
      by (subst (asm) resolve_loop.simps) auto
  next
    case ne: False
    obtain st' rs where pass: "resolve_pass st remaining = (st', rs)"
      by (cases "resolve_pass st remaining")
    from resolve_pass_mset [OF pass] obtain remaining'
      where rm: "remove_each remaining rs = Some remaining'"
      using remove_each_succeeds by blast
    from "1.prems"(2) ne pass rm have P': "P st' remaining'" by (rule step)
    show ?thesis
    proof (cases "rs = [] \<and> remaining' \<noteq> []")
      case True
      with rm have same: "remaining' = remaining" by simp
      from True pass have idle: "st' = st \<and> (\<forall>fp\<in>set remaining. \<not> ready st fp)"
        using resolve_pass_nothing by blast
      from True ne pass rm have "resolve_loop st remaining passes =
          Inr \<lparr>lr_created = created st', lr_descriptors = descriptors st',
                lr_remaining = remaining', lr_warning = Some (map name remaining'),
                lr_passes = Suc passes\<rparr>"
        by (subst resolve_loop.simps) simp
      with "1.prems"(1) have "r = \<lparr>lr_created = created st', lr_descriptors = descriptors st',
                lr_remaining = remaining', lr_warning = Some (map name remaining'),
                lr_passes = Suc passes\<rparr>" by simp
      then have r: "lr_created r = created st'" "lr_descriptors r = descriptors st'"
        "lr_remaining r = remaining" "lr_warning r = Some (map name remaining)"
        using same by simp_all
      from idle have nr: "\<forall>fp\<in>set remaining. \<not> ready st' fp" by simp
      from P' same have "P st' remaining" by simp
      with r nr ne show ?thesis
        by (intro exI [of _ st']) simp
    next
      case False
      from ne pass rm False
      have "resolve_loop st remaining passes = resolve_loop st' remaining' (Suc passes)"
        by (subst resolve_loop.simps) auto
      with "1.prems"(1) have "resolve_loop st' remaining' (Suc passes) = Inr r" by simp
      with "1.IH" [OF ne pass [symmetric] rm False] P' show ?thesis by blast
    qed
  qed
qed

lemma built_store: "built (store st fp deps) = insert fp (built st)"
  by (auto simp: built_def store_def Let_def)

lemma keys_store:
  "set (dict_keys (descriptors (store st fp deps))) = insert (name fp) (set (dict_keys (descriptors st)))"
  by (simp add: store_def Let_def dict_keys_dict_set)

lemma resolve_pass_built:
  "resolve_pass st fps = (st', rs) \<Longrightarrow> built st' = built st \<union> set rs"
proof (induction fps arbitrary: st st' rs)
  case Nil
  then show ?case by simp
next
  case (Cons fp fps)
  show ?case
  proof (cases "ready st fp")
    case True
    let ?st = "store st fp (List.map_filter (dict_get (descriptors st)) (dependency fp))"
    obtain st2 rs2 where p: "resolve_pass ?st fps = (st2, rs2)"
      by (cases "resolve_pass ?st fps")
    with True Cons.prems have "st' = st2" "rs = fp # rs2"
      by (simp_all add: resolve_pass_Cons)
    with Cons.IH [OF p] show ?thesis by (auto simp: built_store)
  next
    case False
    with Cons.prems have "resolve_pass st fps = (st', rs)" by (simp add: resolve_pass_Cons)
    then show ?thesis by (rule Cons.IH)
  qed
qed

lemma first_pass_built:
  "built (first_pass st fps) = built st \<union> {fp \<in> set fps. dependency fp = []}"
  by (induction fps arbitrary: st) (auto simp: built_store)

lemma list_remove_filter:
  "list_remove ys x = Some zs \<Longrightarrow> \<not> pred x \<Longrightarrow> filter pred zs = filter pred ys"
  by (induction ys arbitrary: zs) (auto split: if_splits)

lemma remove_each_filter:
  "remove_each ys rs = Some zs \<Longrightarrow> \<forall>x\<in>set rs. \<not> pred x \<Longrightarrow> filter pred zs = filter pred ys"
proof (induction rs arbitrary: ys)
  case Nil
  then show ?case by simp
next
  case (Cons r rs)
  from Cons.prems(1) obtain ys' where r: "list_remove ys r = Some ys'"
    and rs: "remove_each ys' rs = Some zs"
    by (auto split: option.splits)
  from Cons.prems(2) have nr: "\<not> pred r" and nrs: "\<forall>x\<in>set rs. \<not> pred x"
    by simp_all
  from rs nrs have "filter pred zs = filter pred ys'" by (rule Cons.IH)
  also from r nr have "filter pred ys' = filter pred ys" by (rule list_remove_filter)
  finally show ?case .
qed

lemma filter_filter_built:
  assumes "\<forall>fp\<in>set files. dependency fp = [] \<longrightarrow> \<not> pred fp"
  shows "filter pred (filter (\<lambda>fp. dependency fp \<noteq> []) files) = filter pred files"
  using assms by (induction files) auto

lemma load_descriptors_state:
  assumes load: "load_descriptors (Inr files) = Inr r"
    and init: "Q \<lparr>created = [], descriptors = []\<rparr>"
    and step: "\<And>st fp. Q st \<Longrightarrow> fp \<in> set files \<Longrightarrow> ready st fp \<Longrightarrow>
           Q (store st fp (List.map_filter (dict_get (descriptors st)) (dependency fp)))"
  shows "\<exists>st. lr_created r = created st \<and> lr_descriptors r = descriptors st \<and> Q st \<and>
           (\<forall>fp\<in>set (lr_remaining r). \<not> ready st fp) \<and>
           set (lr_remaining r) \<subseteq> set files \<and>
           set files \<subseteq> built st \<union> set (lr_remaining r) \<and>
           (\<forall>pred. (\<forall>fp\<in>built st. \<not> pred fp) \<longrightarrow>
                   filter pred (lr_remaining r) = filter pred files) \<and>
           lr_warning r = (if lr_remaining r = [] then None
                           else Some (map name (lr_remaining r)))"
proof -
  let ?st0 = "first_pass \<lparr>created = [], descriptors = []\<rparr> files"
  let ?rem0 = "filter (\<lambda>fp. dependency fp \<noteq> []) files"
  let ?P = "\<lambda>st remaining. Q st \<and> set remaining \<subseteq> set files \<and>
              set files \<subseteq> built st \<union> set remaining \<and>
              (\<forall>pred. (\<forall>fp\<in>built st. \<not> pred fp) \<longrightarrow>
                   filter pred remaining = filter pred files)"
  from load have loop: "resolve_loop ?st0 ?rem0 0 = Inr r"
    by (simp add: load_descriptors_def)
  have "Q ?st0" using init step by (rule first_pass_preserves)
  moreover have "set files \<subseteq> built ?st0 \<union> set ?rem0"
    by (auto simp: first_pass_built)
  moreover have "\<forall>pred. (\<forall>fp\<in>built ?st0. \<not> pred fp) \<longrightarrow>
                   filter pred ?rem0 = filter pred files"
    by (intro allI impI filter_filter_built) (simp add: first_pass_built)
  ultimately have P0: "?P ?st0 ?rem0" by auto
  have "\<exists>st'. lr_created r = created st' \<and> lr_descriptors r = descriptors st' \<and>
           ?P st' (lr_remaining r) \<and> (\<forall>fp\<in>set (lr_remaining r). \<not> ready st' fp) \<and>
           lr_warning r = (if lr_remaining r = [] then None
                           else Some (map name (lr_remaining r)))"
  proof (rule resolve_loop_result [where P = ?P, OF loop P0])
    fix st remaining st' rs remaining'
    assume P: "?P st remaining" and pass: "resolve_pass st remaining = (st', rs)"
      and rm: "remove_each remaining rs = Some remaining'"
    from P have "Q st" by simp
    then have "Q (fst (resolve_pass st remaining))"
      by (rule resolve_pass_preserves) (use P step in auto)
    with pass have "Q st'" by simp
    moreover from rm have s: "set remaining = set rs \<union> set remaining'"
      by (rule remove_each_set)
    moreover note b = resolve_pass_built [OF pass]
    moreover have "filter pred remaining' = filter pred files"
      if "\<forall>fp\<in>built st'. \<not> pred fp" for pred
    proof -
      from that b have "\<forall>x\<in>set rs. \<not> pred x" by simp
      with rm have "filter pred remaining' = filter pred remaining"
        by (rule remove_each_filter)
      moreover from that b P have "filter pred remaining = filter pred files" by simp
      ultimately show ?thesis by simp
    qed
    ultimately show "?P st' remaining'" using P by auto
  qed
  then show ?thesis by blast
qed

lemma deps_present_store:
  assumes "deps_present st" and "ready st fp"
  shows "deps_present (store st fp deps)"
proof -
  let ?fd = "FileDescriptor (length (created st)) (name fp) (package fp) fp deps"
  have d: "descriptors (store st fp deps) = dict_set (descriptors st) (name fp) ?fd"
    by (simp add: store_def Let_def)
  have sub: "set (descriptors (store st fp deps)) \<subseteq> insert (name fp, ?fd) (set (descriptors st))"
    unfolding d by (rule dict_set_subset)
  have keys: "set (dict_keys (descriptors st)) \<subseteq> set (dict_keys (descriptors (store st fp deps)))"
    by (auto simp: keys_store)
  show ?thesis
    unfolding deps_present_def
  proof (clarify)
    fix k fd dep
    assume "(k, fd) \<in> set (descriptors (store st fp deps))"
      and dep: "dep \<in> set (dependency (serialized_pb fd))"
    with sub have "(k, fd) = (name fp, ?fd) \<or> (k, fd) \<in> set (descriptors st)" by auto
    then have "dep \<in> set (dict_keys (descriptors st))"
    proof
      assume "(k, fd) = (name fp, ?fd)"
      with dep assms(2) show ?thesis by (auto simp: ready_def)
    next
      assume "(k, fd) \<in> set (descriptors st)"
      with dep assms(1) show ?thesis by (auto simp: deps_present_def)
    qed
    with keys show "dep \<in> set (dict_keys (descriptors (store st fp deps)))" by auto
  qed
qed



text \<open>Object identities: the \<open>oid\<close> of an object is its creation index.\<close>

lemma oids_in_order_store: "oids_in_order st \<Longrightarrow> oids_in_order (store st fp deps)"
  by (simp add: oids_in_order_def store_def Let_def)

lemma created_oids:
  assumes "load_descriptors snapshot = Inr r"
  shows "map oid (lr_created r) = [0..<length (lr_created r)]"
proof -
  from assms obtain files where snapshot: "snapshot = Inr files"
    by (cases snapshot) (simp_all add: load_descriptors_def)
  have init: "oids_in_order \<lparr>created = [], descriptors = []\<rparr>"
    by (simp add: oids_in_order_def)
  from assms have load: "load_descriptors (Inr files) = Inr r" by (simp add: snapshot)
  have "\<exists>st. lr_created r = created st \<and> lr_descriptors r = descriptors st \<and>
           oids_in_order st \<and>
           (\<forall>fp\<in>set (lr_remaining r). \<not> ready st fp) \<and>
           set (lr_remaining r) \<subseteq> set files \<and>
           set files \<subseteq> built st \<union> set (lr_remaining r) \<and>
           (\<forall>pred. (\<forall>fp\<in>built st. \<not> pred fp) \<longrightarrow>
                   filter pred (lr_remaining r) = filter pred files) \<and>
           lr_warning r = (if lr_remaining r = [] then None
                           else Some (map name (lr_remaining r)))"
    using load init by (rule load_descriptors_state) (rule oids_in_order_store)
  then obtain st where "lr_created r = created st" "oids_in_order st" by auto
  then show ?thesis by (simp add: oids_in_order_def)
qed

section \<open>The resolver: claims C2 to C5\<close>

subsection \<open>The example snapshots, evaluated\<close>

lemma load_test_snapshot:
  "load_descriptors (Inr [order_proto, user_proto]) =
     Inr \<lparr>lr_created = [user_file, order_file], lr_descriptors = test_descriptors,
          lr_remaining = [], lr_warning = None, lr_passes = 1\<rparr>"
  by code_simp


lemma load_chain_snapshot:
  "(case load_descriptors (Inr chain_snapshot) of
      Inl e \<Rightarrow> None
    | Inr r \<Rightarrow> Some (lr_passes r, dict_keys (lr_descriptors r), lr_remaining r)) =
   Some (2, [''a.proto'', ''b.proto'', ''c.proto''], [])"
  by code_simp

subsection \<open>C4: termination and the number of passes\<close>

text \<open>
  Claim C4. For every snapshot of \<open>N\<close> file records the \<^verbatim>\<open>while\<close> loop of
  \<^verbatim>\<open>load_descriptors\<close> terminates, within at most \<open>N\<close> passes. The function is
  total (its termination is proved with the definition of \<open>resolve_loop\<close>), it returns
  normally on every parsed snapshot, and the body of the loop runs at most once per
  record that declares a dependency, so at most \<open>N\<close> times. This holds for every
  snapshot, fully resolvable or not.
\<close>

theorem load_descriptors_terminates:
  "\<exists>r. load_descriptors (Inr files) = Inr r \<and>
        lr_passes r \<le> length (filter (\<lambda>fp. dependency fp \<noteq> []) files) \<and>
        lr_passes r \<le> length files"
proof -
  let ?remaining = "filter (\<lambda>fp. dependency fp \<noteq> []) files"
  obtain r where r: "resolve_loop (first_pass \<lparr>created = [], descriptors = []\<rparr> files) ?remaining 0 = Inr r"
    and b: "lr_passes r \<le> 0 + length ?remaining"
    using resolve_loop_returns by blast
  have "length ?remaining \<le> length files" by (rule length_filter_le)
  with b have "lr_passes r \<le> length files" by linarith
  with r b show ?thesis by (simp add: load_descriptors_def del: filter.simps)
qed

theorem load_descriptors_terminates_witness:
  "\<exists>r. load_descriptors (Inr chain_snapshot) = Inr r \<and> lr_passes r = 2 \<and>
        lr_passes r \<le> length chain_snapshot"
proof -
  from load_descriptors_terminates [of chain_snapshot]
  obtain r where r: "load_descriptors (Inr chain_snapshot) = Inr r"
    and b: "lr_passes r \<le> length chain_snapshot" by blast
  from load_chain_snapshot r have "lr_passes r = 2" by simp
  with r b show ?thesis by blast
qed

subsection \<open>C2: no resolved record has an unresolved dependency\<close>

text \<open>
  Claim C2. In the dictionary returned by \<^verbatim>\<open>load_descriptors\<close>, every record that
  is present has each of its declared dependency names present as a key.
\<close>

theorem load_descriptors_dependencies_present:
  assumes "load_descriptors snapshot = Inr r"
    and "dict_get (lr_descriptors r) k = Some fd"
    and "dep \<in> set (dependency (serialized_pb fd))"
  shows "dep \<in> set (dict_keys (lr_descriptors r))"
proof -
  from assms(1) obtain files where snapshot: "snapshot = Inr files"
    by (cases snapshot) (simp_all add: load_descriptors_def)
  have "deps_present \<lparr>created = [], descriptors = []\<rparr>"
    by (simp add: deps_present_def)
  with assms(1) [unfolded snapshot]
  obtain st where st: "lr_descriptors r = descriptors st" "deps_present st"
    using load_descriptors_state [where Q = deps_present and files = files and r = r]
      deps_present_store by blast
  from assms(2) have "(k, fd) \<in> set (lr_descriptors r)" by (rule dict_get_in_set)
  with st assms(3) show ?thesis by (auto simp: deps_present_def)
qed

theorem load_descriptors_dependencies_present_witness:
  "dict_get test_descriptors ''order.proto'' = Some order_file \<and>
   ''user.proto'' \<in> set (dependency (serialized_pb order_file)) \<and>
   ''user.proto'' \<in> set (dict_keys test_descriptors)"
proof -
  have g: "dict_get (lr_descriptors \<lparr>lr_created = [user_file, order_file],
              lr_descriptors = test_descriptors, lr_remaining = [], lr_warning = None,
              lr_passes = 1\<rparr>) ''order.proto'' = Some order_file"
    by (simp add: dict_get_def test_descriptors_def)
  have d: "''user.proto'' \<in> set (dependency (serialized_pb order_file))"
    by (simp add: order_file_def order_proto_def)
  from load_descriptors_dependencies_present [OF load_test_snapshot g d] g d
  show ?thesis by simp
qed

subsection \<open>C3: the partial graph\<close>



subsection \<open>C5: the scenario of two files\<close>

text \<open>
  Claim C5. For a snapshot of a file \<open>A\<close> without dependencies and a file \<open>B\<close> that
  depends on \<open>A\<close>, in either order, \<open>A\<close> is resolved first, in the first pass, and
  \<open>B\<close> second, in the one pass of the loop (the objects are created in this order), and the one dependency stored in the descriptor of
  \<open>B\<close> is the very object that the dictionary holds under the name of \<open>A\<close>: it carries
  the same identity \<open>oid\<close>, and identities are not shared between objects
  (\<open>created_oids\<close>).
\<close>

theorem load_descriptors_links_by_reference:
  assumes "name A \<noteq> name B" and "dependency A = []" and "dependency B = [name A]"
    and "files = [A, B] \<or> files = [B, A]"
  shows "\<exists>r a b. load_descriptors (Inr files) = Inr r \<and> lr_created r = [a, b] \<and>
           serialized_pb a = A \<and> serialized_pb b = B \<and> oid a = 0 \<and> oid b = 1 \<and>
           dict_get (lr_descriptors r) (name A) = Some a \<and>
           dict_get (lr_descriptors r) (name B) = Some b \<and>
           dependencies a = [] \<and> dependencies b = [a] \<and>
           lr_remaining r = [] \<and> lr_warning r = None \<and> lr_passes r = 1"
proof -
  let ?a = "FileDescriptor 0 (name A) (package A) A []"
  let ?b = "FileDescriptor 1 (name B) (package B) B [?a]"
  let ?r = "\<lparr>lr_created = [?a, ?b], lr_descriptors = [(name A, ?a), (name B, ?b)],
             lr_remaining = [], lr_warning = None, lr_passes = 1\<rparr>"
  from assms(1-3) have "load_descriptors (Inr [A, B]) = Inr ?r"
    by (simp add: load_descriptors_def resolve_loop.simps resolve_pass_Cons ready_def store_def
        dict_keys_def dict_get_def List.map_filter_simps Let_def)
  moreover from assms(1-3) have "load_descriptors (Inr [B, A]) = Inr ?r"
    by (simp add: load_descriptors_def resolve_loop.simps resolve_pass_Cons ready_def store_def
        dict_keys_def dict_get_def List.map_filter_simps Let_def)
  ultimately have "load_descriptors (Inr files) = Inr ?r"
    using assms(4) by auto
  moreover from assms(1) have "dict_get (lr_descriptors ?r) (name A) = Some ?a"
    "dict_get (lr_descriptors ?r) (name B) = Some ?b"
    by (simp_all add: dict_get_def)
  ultimately show ?thesis
    by (intro exI [of _ ?r] exI [of _ ?a] exI [of _ ?b]) simp
qed

theorem load_descriptors_links_by_reference_witness:
  "\<exists>r a b. load_descriptors (Inr [order_proto, user_proto]) = Inr r \<and>
      lr_created r = [a, b] \<and> serialized_pb a = user_proto \<and> serialized_pb b = order_proto \<and>
      oid a = 0 \<and> oid b = 1 \<and>
      dict_get (lr_descriptors r) ''user.proto'' = Some a \<and>
      dict_get (lr_descriptors r) ''order.proto'' = Some b \<and>
      dependencies a = [] \<and> dependencies b = [a] \<and>
      lr_remaining r = [] \<and> lr_warning r = None \<and> lr_passes r = 1"
proof -
  have "name user_proto \<noteq> name order_proto" "dependency user_proto = []"
    "dependency order_proto = [name user_proto]"
    "[order_proto, user_proto] = [user_proto, order_proto] \<or>
     [order_proto, user_proto] = [order_proto, user_proto]"
    by (simp_all add: user_proto_def order_proto_def)
  from load_descriptors_links_by_reference [OF this]
  show ?thesis by (simp add: user_proto_def order_proto_def)
qed

section \<open>The lookup of message types: claims C1 and C9\<close>

subsection \<open>Facts about the scan\<close>

lemma foldl_nested:
  "foldl (\<lambda>acc x. foldl f acc (g x)) acc xs = foldl f acc (concat (map g xs))"
  by (induction xs arbitrary: acc) simp_all

lemma last_match_snoc:
  "last_match n (ds @ [d]) = (if desc_name d = n then Some d else last_match n ds)"
  by (simp add: last_match_def)

lemma scan_all:
  "foldl scan_message f ds =
     \<lparr>user_desc = (case last_match ''User'' ds of None \<Rightarrow> user_desc f | Some d \<Rightarrow> Some d),
      order_desc = (case last_match ''Order'' ds of None \<Rightarrow> order_desc f | Some d \<Rightarrow> Some d),
      address_desc = (case last_match ''Address'' ds of None \<Rightarrow> address_desc f | Some d \<Rightarrow> Some d)\<rparr>"
proof (induction ds rule: rev_induct)
  case Nil
  show ?case by (simp add: last_match_def)
next
  case (snoc d ds)
  then show ?case
    by (simp add: last_match_snoc scan_message_def)
qed

lemma find_message_types_fold:
  "find_message_types descs =
     foldl scan_message \<lparr>user_desc = None, order_desc = None, address_desc = None\<rparr>
       (all_message_types descs)"
  unfolding find_message_types_def all_message_types_def by (rule foldl_nested)











subsection \<open>C1: which descriptor a colliding bare name is bound to\<close>

text \<open>
  Claim C1, as stated, says that the first match in iteration order is the one returned.
  The loops of lines 72 to 79 have no \<^verbatim>\<open>break\<close>, so every later match overwrites
  the variable. On the snapshot of two packages that both declare \<^verbatim>\<open>User\<close> the
  scan binds \<^verbatim>\<open>beta.User\<close>, the last match, while the first match is
  \<^verbatim>\<open>alpha.User\<close>.
\<close>

theorem find_message_types_not_first_match:
  "(case load_descriptors (Inr colliding_snapshot) of
      Inl e \<Rightarrow> None
    | Inr r \<Rightarrow>
        Some (map full_name (all_message_types (lr_descriptors r)),
              map_option full_name (user_desc (find_message_types (lr_descriptors r))),
              map_option full_name (first_match ''User'' (all_message_types (lr_descriptors r))),
              user_desc (find_message_types (lr_descriptors r)) =
                first_match ''User'' (all_message_types (lr_descriptors r)))) =
   Some ([''alpha.User'', ''alpha.Address'', ''alpha.Order'', ''beta.User''],
         Some ''beta.User'', Some ''alpha.User'', False)"
  by code_simp

text \<open>
  Claim C1, amended. The scan visits the message types of every file of the dictionary
  and compares bare names only; each of the three variables ends as the last descriptor
  in iteration order whose bare name matches, and as \<open>None\<close> when there is none.
\<close>

theorem find_message_types_last_match:
  "find_message_types descs =
     \<lparr>user_desc = last_match ''User'' (all_message_types descs),
      order_desc = last_match ''Order'' (all_message_types descs),
      address_desc = last_match ''Address'' (all_message_types descs)\<rparr>"
proof -
  let ?none = "\<lparr>user_desc = None, order_desc = None, address_desc = None\<rparr>"
  have "find_message_types descs = foldl scan_message ?none (all_message_types descs)"
    by (rule find_message_types_fold)
  also have "\<dots> =
     \<lparr>user_desc = last_match ''User'' (all_message_types descs),
      order_desc = last_match ''Order'' (all_message_types descs),
      address_desc = last_match ''Address'' (all_message_types descs)\<rparr>"
    by (simp add: scan_all split: option.splits)
  finally show ?thesis .
qed

section \<open>The sample values: claims C6 and C7\<close>

subsection \<open>The decimal representation is injective\<close>

lemma digit_val_digit_char: "d < 10 \<Longrightarrow> digit_val (digit_char d) = d"
proof -
  assume "d < 10"
  then have "d = 0 \<or> d = 1 \<or> d = 2 \<or> d = 3 \<or> d = 4 \<or> d = 5 \<or> d = 6
    \<or> d = 7 \<or> d = 8 \<or> d = 9" by arith
  then show ?thesis
    by (elim disjE) (simp_all add: digit_val_def digit_char_def)
qed

lemma nat_of_str_snoc: "nat_of_str (s @ [c]) = 10 * nat_of_str s + digit_val c"
  by (simp add: nat_of_str_def)

lemma nat_of_str_str_nat: "nat_of_str (str_nat n) = n"
proof (induction n rule: str_nat.induct)
  case (1 n)
  show ?case
  proof (cases "n < 10")
    case True
    then show ?thesis
      by (subst str_nat.simps) (simp add: nat_of_str_def digit_val_digit_char)
  next
    case False
    with 1 have "nat_of_str (str_nat (n div 10)) = n div 10" by simp
    with False show ?thesis
      by (subst str_nat.simps) (simp add: nat_of_str_snoc digit_val_digit_char)
  qed
qed

lemma str_nat_inj: "str_nat m = str_nat n \<Longrightarrow> m = n"
  by (metis nat_of_str_str_nat)

lemma str_int_inj: "0 \<le> i \<Longrightarrow> 0 \<le> j \<Longrightarrow> str_int i = str_int j \<Longrightarrow> i = j"
  by (auto simp: str_int_def dest!: str_nat_inj)

lemma str_int_of_nat_inj: "str_int (int m) = str_int (int n) \<Longrightarrow> m = n"
  using str_int_inj [of "int m" "int n"] by simp

subsection \<open>C6: identifiers are injective in the index\<close>

text \<open>
  Claim C6. The identifier fields and the text fields derived from the index are
  functions of the index alone and take different values at different indices: the user
  id \<open>1000 + i\<close>, name, e-mail address, first tag and street of a user sample; the order
  id \<open>9000 + i\<close>, the customer's id, name and e-mail address, and the product id and
  product name of an order sample. The clock readings \<open>t\<close> and \<open>t'\<close> of the two order
  samples are arbitrary.
\<close>

theorem sample_identifiers_injective:
  assumes "i \<noteq> j"
  shows "user_id (sample_user i) \<noteq> user_id (sample_user j) \<and>
    email (sample_user i) \<noteq> email (sample_user j) \<and>
    user_name (sample_user i) \<noteq> user_name (sample_user j) \<and>
    hd (tags (sample_user i)) \<noteq> hd (tags (sample_user j)) \<and>
    street (user_address (sample_user i)) \<noteq> street (user_address (sample_user j)) \<and>
    order_id (sample_order t i) \<noteq> order_id (sample_order t' j) \<and>
    user_id (order_user (sample_order t i)) \<noteq> user_id (order_user (sample_order t' j)) \<and>
    email (order_user (sample_order t i)) \<noteq> email (order_user (sample_order t' j)) \<and>
    user_name (order_user (sample_order t i)) \<noteq> user_name (order_user (sample_order t' j)) \<and>
    map product_id (items (sample_order t i)) \<noteq> map product_id (items (sample_order t' j)) \<and>
    map product_name (items (sample_order t i)) \<noteq>
      map product_name (items (sample_order t' j))"
  using assms str_int_of_nat_inj [of i j] str_int_inj [of "1000 + int i" "1000 + int j"]
    str_int_inj [of "100 + int i * 10" "100 + int j * 10"]
  by (auto simp: sample_user_def sample_order_def Let_def)

theorem sample_identifiers_injective_witness:
  "(0 :: nat) \<noteq> 1 \<and>
   user_id (sample_user 0) = 1000 \<and> user_id (sample_user 1) = 1001 \<and>
   email (sample_user 0) \<noteq> email (sample_user 1) \<and>
   order_id (sample_order 0 0) \<noteq> order_id (sample_order 0 1) \<and>
   map product_id (items (sample_order 0 0)) \<noteq> map product_id (items (sample_order 0 1))"
proof -
  have "(0 :: nat) \<noteq> 1" by simp
  from sample_identifiers_injective [OF this, of 0 0]
  show ?thesis by (simp add: sample_user_def Let_def)
qed

subsection \<open>C7: which fields are keyed by parity\<close>

text \<open>
  Claim C7, as stated, says that every enumerated or status-like field of both the user
  and the order samples cycles through values keyed by the parity of the index. The
  order samples set \<^verbatim>\<open>order.status = 1\<close> and \<^verbatim>\<open>user.type = 2\<close> at every
  index: the values at index 0 and at index 1 agree.
\<close>

theorem order_status_not_keyed_by_parity:
  "status (sample_order 0 0) = 1 \<and> status (sample_order 0 1) = 1 \<and>
   user_type (order_user (sample_order 0 0)) = 2 \<and>
   user_type (order_user (sample_order 0 1)) = 2 \<and>
   \<not> keyed_by_parity (\<lambda>i. status (sample_order 0 i)) \<and>
   \<not> keyed_by_parity (\<lambda>i. user_type (order_user (sample_order 0 i)))"
proof -
  have s: "status (sample_order 0 i) = 1" for i by (simp add: sample_order_def Let_def)
  have u: "user_type (order_user (sample_order 0 i)) = 2" for i
    by (simp add: sample_order_def Let_def)
  have "\<not> keyed_by_parity (\<lambda>i. status (sample_order 0 i))"
  proof
    assume "keyed_by_parity (\<lambda>i. status (sample_order 0 i))"
    then obtain a b where "a \<noteq> b"
      and k: "\<forall>i. status (sample_order 0 i) = (if i mod 2 = 0 then a else b)"
      unfolding keyed_by_parity_def by blast
    from k [rule_format, of 0] k [rule_format, of 1] s have "a = 1" "b = 1" by simp_all
    with \<open>a \<noteq> b\<close> show False by simp
  qed
  moreover have "\<not> keyed_by_parity (\<lambda>i. user_type (order_user (sample_order 0 i)))"
  proof
    assume "keyed_by_parity (\<lambda>i. user_type (order_user (sample_order 0 i)))"
    then obtain a b where "a \<noteq> b"
      and k: "\<forall>i. user_type (order_user (sample_order 0 i)) = (if i mod 2 = 0 then a else b)"
      unfolding keyed_by_parity_def by blast
    from k [rule_format, of 0] k [rule_format, of 1] u have "a = 2" "b = 2" by simp_all
    with \<open>a \<noteq> b\<close> show False by simp
  qed
  ultimately show ?thesis using s u by simp
qed

text \<open>
  Claim C7, amended. In a user sample the type is 1 at even and 2 at odd indices, and
  the city is \<^verbatim>\<open>Springfield\<close> at even and \<^verbatim>\<open>Anytown\<close> at odd indices. In an order
  sample the status is 1, the type of the embedded user is 2 and the city is
  \<^verbatim>\<open>Commerce City\<close>, whatever the index.
\<close>

theorem sample_enumerated_fields:
  "keyed_by_parity (\<lambda>i. user_type (sample_user i)) \<and>
   keyed_by_parity (\<lambda>i. city (user_address (sample_user i))) \<and>
   user_type (sample_user i) = (if i mod 2 = 0 then 1 else 2) \<and>
   city (user_address (sample_user i)) = (if i mod 2 = 0 then ''Springfield'' else ''Anytown'') \<and>
   status (sample_order t i) = 1 \<and>
   user_type (order_user (sample_order t i)) = 2 \<and>
   city (user_address (order_user (sample_order t i))) = ''Commerce City''"
proof -
  have ut: "user_type (sample_user k) = (if k mod 2 = 0 then 1 else 2)" for k
    by (simp add: sample_user_def Let_def)
  have ct: "city (user_address (sample_user k)) =
      (if k mod 2 = 0 then ''Springfield'' else ''Anytown'')" for k
    by (simp add: sample_user_def Let_def)
  have "keyed_by_parity (\<lambda>i. user_type (sample_user i))"
    unfolding keyed_by_parity_def
    by (intro exI [of _ 1] exI [of _ 2]) (simp add: ut)
  moreover have "keyed_by_parity (\<lambda>i. city (user_address (sample_user i)))"
    unfolding keyed_by_parity_def
    by (intro exI [of _ "''Springfield''"] exI [of _ "''Anytown''"]) (simp add: ct)
  moreover have "status (sample_order t i) = 1"
    "user_type (order_user (sample_order t i)) = 2"
    "city (user_address (order_user (sample_order t i))) = ''Commerce City''"
    by (simp_all add: sample_order_def Let_def)
  ultimately show ?thesis using ut [of i] ct [of i] by simp
qed

section \<open>Publishing: claims C9, C10 and C8\<close>

subsection \<open>Facts about the burst and the background loop\<close>

lemma sent_append: "sent (xs @ ys) = sent xs @ sent ys"
  by (induction xs rule: sent.induct) simp_all

lemma sent_burst_events:
  "sent (burst_events env n ms) = map (\<lambda>(topic, message_bytes, description). (topic, message_bytes)) ms"
  by (induction env n ms rule: burst_events.induct) simp_all

lemma send_message_ok:
  "send_ok env (sends ps) \<Longrightarrow>
   send_message env ps (topic, message_bytes, description) =
     (None, ps\<lparr>trace := trace ps @ [Send topic (key_at env (sends ps)) message_bytes],
               sends := Suc (sends ps)\<rparr>)"
  by (simp add: send_message_def emit_def key_at_def)


lemma send_burst_ok:
  assumes "\<forall>n. sends ps \<le> n \<and> n < sends ps + length ms \<longrightarrow> send_ok env n"
  shows "send_burst env ps ms =
     (None, ps\<lparr>trace := trace ps @ burst_events env (sends ps) ms,
               sends := sends ps + length ms\<rparr>)"
  using assms
proof (induction ms arbitrary: ps)
  case Nil
  show ?case by simp
next
  case (Cons m ms)
  obtain topic message_bytes description where m: "m = (topic, message_bytes, description)"
    by (cases m)
  let ?ps = "ps\<lparr>trace := trace ps @ [Send topic (key_at env (sends ps)) message_bytes],
                 sends := Suc (sends ps)\<rparr>"
  from Cons.prems have ok: "send_ok env (sends ps)" by simp
  have "\<forall>n. sends (emit (Sleep 1) ?ps) \<le> n \<and> n < sends (emit (Sleep 1) ?ps) + length ms
          \<longrightarrow> send_ok env n"
    using Cons.prems by (simp add: emit_def)
  from Cons.IH [OF this] ok show ?case
    by (simp add: m send_message_ok emit_def)
qed




lemma upt_0_5: "[0..<5] = [0, 1, 2, 3, 4]"
  by code_simp

lemma upt_0_3: "[0..<3] = [0, 1, 2]"
  by code_simp

lemma str_int_small:
  "str_int 0 = ''0''" "str_int 1 = ''1''" "str_int 2 = ''2''" "str_int 3 = ''3''"
  "str_int 4 = ''4''"
  by (simp_all add: str_int_def str_nat.simps digit_char_def)

lemma create_sample_messages_corpus:
  assumes "create_sample_messages t descs = Inr msgs"
  shows "\<exists>u ord. user_desc (find_message_types descs) = Some u \<and>
           order_desc (find_message_types descs) = Some ord \<and>
           msgs = [(''user-events'', UserBytes u (sample_user 0), ''User 0''),
                   (''user-events'', UserBytes u (sample_user 1), ''User 1''),
                   (''user-events'', UserBytes u (sample_user 2), ''User 2''),
                   (''user-events'', UserBytes u (sample_user 3), ''User 3''),
                   (''user-events'', UserBytes u (sample_user 4), ''User 4''),
                   (''order-events'', OrderBytes ord (sample_order (t 0) 0), ''Order 0''),
                   (''order-events'', OrderBytes ord (sample_order (t 1) 1), ''Order 1''),
                   (''order-events'', OrderBytes ord (sample_order (t 2) 2), ''Order 2'')]"
  using assms
  by (auto simp: create_sample_messages_def Let_def upt_0_5 upt_0_3 str_int_small
      split: if_splits)

lemma main_after_burst:
  assumes "load_descriptors (descriptor_file env) = Inr loaded"
    and "create_sample_messages (time_ms env) (lr_descriptors loaded) = Inr msgs"
    and "connect_ok env 0"
    and "\<forall>n<length msgs. send_ok env n"
  shows "main env fuel =
     (case background_loop env msgs fuel
             \<lparr>trace = [Sleep 10, Connect] @ burst_events env 0 msgs @ [Flush, Close],
              connects = 1, sends = length msgs\<rparr> of
        (Some e, ps3) \<Rightarrow> (Exited 1, trace ps3)
      | (None, ps3) \<Rightarrow> (Running, trace ps3))"
proof -
  let ?ps1 = "\<lparr>trace = [Sleep 10, Connect], connects = Suc 0, sends = 0\<rparr>"
  have "\<forall>n. sends ?ps1 \<le> n \<and> n < sends ?ps1 + length msgs \<longrightarrow> send_ok env n"
    using assms(4) by simp
  then have "send_burst env ?ps1 msgs =
     (None, ?ps1\<lparr>trace := trace ?ps1 @ burst_events env (sends ?ps1) msgs,
               sends := sends ?ps1 + length msgs\<rparr>)"
    by (rule send_burst_ok)
  with assms(1-3) show ?thesis
    by (simp add: main_def Let_def emit_def KafkaProducer_def)
qed

lemma find_test_descriptors:
  "find_message_types test_descriptors =
     \<lparr>user_desc = Some test_user_desc, order_desc = Some test_order_desc,
      address_desc = Some \<lparr>desc_name = ''Address'', full_name = ''test.Address'',
                           desc_file = ''user.proto''\<rparr>\<rparr>"
  by code_simp





subsection \<open>C9: a missing message type is fatal\<close>



subsection \<open>C10: the corpus of eight messages\<close>

text \<open>
  Claim C10. Whenever \<^verbatim>\<open>create_sample_messages\<close> succeeds it returns exactly eight
  entries in a fixed order: the five user samples for the topic \<^verbatim>\<open>user-events\<close>,
  then the three order samples for the topic \<^verbatim>\<open>order-events\<close>. When the producer
  connects and the eight sends are acknowledged, the initial burst sends exactly these
  eight payloads to these topics, in this order.
\<close>

theorem create_sample_messages_eight_in_order:
  assumes "create_sample_messages t descs = Inr msgs"
  shows "length msgs = 8 \<and>
    map fst msgs = replicate 5 ''user-events'' @ replicate 3 ''order-events'' \<and>
    map (snd \<circ> snd) msgs =
      [''User 0'', ''User 1'', ''User 2'', ''User 3'', ''User 4'',
       ''Order 0'', ''Order 1'', ''Order 2''] \<and>
    (\<exists>u ord. user_desc (find_message_types descs) = Some u \<and>
       order_desc (find_message_types descs) = Some ord \<and>
       map (fst \<circ> snd) msgs =
         map (\<lambda>i. UserBytes u (sample_user i)) [0..<5] @
         map (\<lambda>i. OrderBytes ord (sample_order (t i) i)) [0..<3]) \<and>
    (\<forall>env loaded.
       load_descriptors (descriptor_file env) = Inr loaded \<and> lr_descriptors loaded = descs \<and>
       time_ms env = t \<and> connect_ok env 0 \<and> (\<forall>n<8. send_ok env n) \<longrightarrow>
       fst (main env 0) = Running \<and>
       sent (snd (main env 0)) =
         map (\<lambda>(topic, message_bytes, description). (topic, message_bytes)) msgs)"
proof -
  from create_sample_messages_corpus [OF assms] obtain u ord
    where u: "user_desc (find_message_types descs) = Some u"
      and ord: "order_desc (find_message_types descs) = Some ord"
      and msgs: "msgs = [(''user-events'', UserBytes u (sample_user 0), ''User 0''),
                   (''user-events'', UserBytes u (sample_user 1), ''User 1''),
                   (''user-events'', UserBytes u (sample_user 2), ''User 2''),
                   (''user-events'', UserBytes u (sample_user 3), ''User 3''),
                   (''user-events'', UserBytes u (sample_user 4), ''User 4''),
                   (''order-events'', OrderBytes ord (sample_order (t 0) 0), ''Order 0''),
                   (''order-events'', OrderBytes ord (sample_order (t 1) 1), ''Order 1''),
                   (''order-events'', OrderBytes ord (sample_order (t 2) 2), ''Order 2'')]"
    by blast
  have len: "length msgs = 8" by (simp add: msgs)
  have topics: "map fst msgs = replicate 5 ''user-events'' @ replicate 3 ''order-events''"
    by (simp add: msgs numeral_eq_Suc)
  have descr: "map (snd \<circ> snd) msgs =
      [''User 0'', ''User 1'', ''User 2'', ''User 3'', ''User 4'',
       ''Order 0'', ''Order 1'', ''Order 2'']"
    by (simp add: msgs)
  have bytes: "map (fst \<circ> snd) msgs =
         map (\<lambda>i. UserBytes u (sample_user i)) [0..<5] @
         map (\<lambda>i. OrderBytes ord (sample_order (t i) i)) [0..<3]"
    by (simp add: msgs upt_0_5 upt_0_3)
  have burst: "fst (main env 0) = Running \<and>
       sent (snd (main env 0)) =
         map (\<lambda>(topic, message_bytes, description). (topic, message_bytes)) msgs"
    if h: "load_descriptors (descriptor_file env) = Inr loaded \<and> lr_descriptors loaded = descs \<and>
       time_ms env = t \<and> connect_ok env 0 \<and> (\<forall>n<8. send_ok env n)"
    for env :: environment and loaded
  proof -
    from h assms have c: "create_sample_messages (time_ms env) (lr_descriptors loaded) = Inr msgs"
      by simp
    from h len have ok: "\<forall>n<length msgs. send_ok env n" by simp
    from h have "load_descriptors (descriptor_file env) = Inr loaded" "connect_ok env 0"
      by simp_all
    from main_after_burst [OF this(1) c this(2) ok, of 0]
    show ?thesis by (simp add: sent_append sent_burst_events)
  qed
  from len topics descr bytes u ord burst show ?thesis by blast
qed

theorem create_sample_messages_eight_in_order_witness:
  "\<exists>msgs. create_sample_messages (\<lambda>i. 0) test_descriptors = Inr msgs \<and> length msgs = 8 \<and>
     map fst msgs = replicate 5 ''user-events'' @ replicate 3 ''order-events'' \<and>
     map (fst \<circ> snd) msgs =
         map (\<lambda>i. UserBytes test_user_desc (sample_user i)) [0..<5] @
         map (\<lambda>i. OrderBytes test_order_desc (sample_order 0 i)) [0..<3] \<and>
     fst (main healthy_env 0) = Running \<and>
     sent (snd (main healthy_env 0)) =
         map (\<lambda>(topic, message_bytes, description). (topic, message_bytes)) msgs"
proof -
  obtain msgs where c: "create_sample_messages (\<lambda>i. 0) test_descriptors = Inr msgs"
    by (simp add: create_sample_messages_def find_test_descriptors Let_def)
  note t = create_sample_messages_eight_in_order [OF c]
  have "load_descriptors (descriptor_file healthy_env) =
      Inr \<lparr>lr_created = [user_file, order_file], lr_descriptors = test_descriptors,
          lr_remaining = [], lr_warning = None, lr_passes = 1\<rparr>"
    by (simp add: healthy_env_def load_test_snapshot)
  moreover have "time_ms healthy_env = (\<lambda>i. 0)" "connect_ok healthy_env 0"
    "\<forall>n<8. send_ok healthy_env n"
    by (simp_all add: healthy_env_def)
  ultimately have "fst (main healthy_env 0) = Running \<and>
     sent (snd (main healthy_env 0)) =
         map (\<lambda>(topic, message_bytes, description). (topic, message_bytes)) msgs"
    using t by (metis load_result.select_convs(2))
  with t c show ?thesis by (auto simp: find_test_descriptors)
qed

subsection \<open>C8: the background loop\<close>




end
